theory Spec2Isabelle
  imports Complex_Main "HOL-Library.Char_ord" "HOL-Library.List_Lexorder" "HOL-Library.Multiset"
begin

section \<open>Characters and strings of the source\<close>

text \<open>
  The program is Python 3, whose \<^verbatim>\<open>str\<close> is a sequence of Unicode code points.
  A \<^typ>\<open>char\<close> stands here for one code point in the range 0..255 (so \<^term>\<open>length\<close>
  counts what Python's \<^verbatim>\<open>len\<close> counts); names that use a code point above 255 are
  outside the model.  The character predicates below are Python's, restricted to
  that range.
\<close>

datatype error = ValueError | TypeError | AttributeError

definition code :: "char \<Rightarrow> nat" where
  "code c = of_char c"

definition py_isspace :: "char \<Rightarrow> bool" where
  \<comment> \<open>\<^verbatim>\<open>str.isspace\<close>, the characters \<^verbatim>\<open>str.strip()\<close> removes\<close>
  "py_isspace c =
     (let n = code c in (9 \<le> n \<and> n \<le> 13) \<or> (28 \<le> n \<and> n \<le> 32) \<or> n = 133 \<or> n = 160)"

definition re_digit :: "char \<Rightarrow> bool" where
  \<comment> \<open>the regular expression class \<^verbatim>\<open>\d\<close>: decimal digits\<close>
  "re_digit c = (let n = code c in 48 \<le> n \<and> n \<le> 57)"

definition py_isdigit :: "char \<Rightarrow> bool" where
  \<comment> \<open>\<^verbatim>\<open>str.isdigit\<close> also accepts the superscript digits U+00B2, U+00B3, U+00B9\<close>
  "py_isdigit c = (let n = code c in (48 \<le> n \<and> n \<le> 57) \<or> n = 178 \<or> n = 179 \<or> n = 185)"

definition lower_char :: "char \<Rightarrow> char" where
  "lower_char c =
     (let n = code c in
      if (65 \<le> n \<and> n \<le> 90) \<or> (192 \<le> n \<and> n \<le> 222 \<and> n \<noteq> 215)
      then char_of (n + 32) else c)"

definition lower :: "string \<Rightarrow> string" where
  \<comment> \<open>\<^verbatim>\<open>str.lower()\<close>\<close>
  "lower s = map lower_char s"

definition strip :: "string \<Rightarrow> string" where
  \<comment> \<open>\<^verbatim>\<open>str.strip()\<close>\<close>
  "strip s = rev (dropWhile py_isspace (rev (dropWhile py_isspace s)))"

definition startswith :: "string \<Rightarrow> string \<Rightarrow> bool" where
  "startswith s p = (take (length p) s = p)"

definition endswith :: "string \<Rightarrow> string \<Rightarrow> bool" where
  "endswith s p = (length p \<le> length s \<and> drop (length s - length p) s = p)"

fun contains :: "string \<Rightarrow> string \<Rightarrow> bool" where
  \<comment> \<open>\<^verbatim>\<open>sub in s\<close>\<close>
  "contains sub [] = (sub = [])"
| "contains sub (c # cs) = (startswith (c # cs) sub \<or> contains sub cs)"

fun split_on :: "char \<Rightarrow> string \<Rightarrow> string list" where
  \<comment> \<open>\<^verbatim>\<open>s.split(sep)\<close> for a one-character separator\<close>
  "split_on sep [] = [[]]"
| "split_on sep (c # cs) =
     (if c = sep then [] # split_on sep cs
      else (case split_on sep cs of [] \<Rightarrow> [[c]] | p # ps \<Rightarrow> (c # p) # ps))"

fun join :: "string \<Rightarrow> string list \<Rightarrow> string" where
  \<comment> \<open>\<^verbatim>\<open>sep.join(parts)\<close>\<close>
  "join sep [] = []"
| "join sep [p] = p"
| "join sep (p # q # ps) = p @ sep @ join sep (q # ps)"


section \<open>Position normalisation\<close>

definition normalize_position :: "string option \<Rightarrow> string" where
  "normalize_position pos0 =
     (case pos0 of
        None \<Rightarrow> []
      | Some raw \<Rightarrow>
          (let pos = filter (\<lambda>c. c \<noteq> CHR '' '') (lower (strip raw)) in
           if CHR ''+'' \<in> set pos
           then (let parts = filter (\<lambda>p. p \<noteq> []) (split_on CHR ''+'' pos)
                 in join ''+'' (sort parts))
           else pos))"


section \<open>The naming grammar\<close>

text \<open>
  \<^verbatim>\<open>NAME_RE\<close> is a compiled regular expression.  The constructs it uses are
  embedded as a datatype, and \<^verbatim>\<open>re.match\<close> as a backtracking matcher that lists
  the ways a pattern can match at the start of the text, in the order in which
  the regular expression engine tries them: a greedy repetition the longest
  first, a lazy one the shortest first, an alternative left to right, an optional
  part first taken, then left out.  The engine returns the first way that
  completes; the flags are \<^verbatim>\<open>IGNORECASE\<close> (literals compare lower-cased) and
  \<^verbatim>\<open>VERBOSE\<close> (the white space of the pattern is not part of it).
\<close>

datatype gname = G_mouse | G_view | G_kind | G_pos | G_tag

datatype cclass =
    Digit       \<comment> \<open>\<^verbatim>\<open>\d\<close>\<close>
  | Dot         \<comment> \<open>\<^verbatim>\<open>.\<close>: any character but a newline\<close>
  | NotRParen   \<comment> \<open>\<^verbatim>\<open>[^)]\<close>\<close>

datatype regex =
    Lit string                          \<comment> \<open>literal text\<close>
  | Rep cclass nat "nat option" bool    \<comment> \<open>class, least, most, greedy\<close>
  | Seq regex regex
  | Alt regex regex
  | Opt regex                           \<comment> \<open>\<^verbatim>\<open>(...)?\<close>, greedy\<close>
  | Group gname regex                   \<comment> \<open>\<^verbatim>\<open>(?P<name>...)\<close>\<close>
  | EndOfText                           \<comment> \<open>\<^verbatim>\<open>$\<close> without \<^verbatim>\<open>MULTILINE\<close>\<close>

type_synonym groups = "gname \<Rightarrow> string option"

fun in_class :: "cclass \<Rightarrow> char \<Rightarrow> bool" where
  "in_class Digit c = re_digit c"
| "in_class Dot c = (c \<noteq> CHR 0x0A)"
| "in_class NotRParen c = (c \<noteq> CHR '')'')"

fun rmatch :: "regex \<Rightarrow> string \<Rightarrow> groups \<Rightarrow> (string \<times> groups) list" where
  "rmatch (Lit l) s g =
     (if length l \<le> length s \<and> lower (take (length l) s) = lower l
      then [(drop (length l) s, g)] else [])"
| "rmatch (Rep k lo hi greedy) s g =
     (let n = length (takeWhile (in_class k) s);
          m = (case hi of None \<Rightarrow> n | Some h \<Rightarrow> min h n);
          lens = [lo..<Suc m]
      in map (\<lambda>i. (drop i s, g)) (if greedy then rev lens else lens))"
| "rmatch (Seq a b) s g = concat (map (\<lambda>(s', g'). rmatch b s' g') (rmatch a s g))"
| "rmatch (Alt a b) s g = rmatch a s g @ rmatch b s g"
| "rmatch (Opt a) s g = rmatch a s g @ [(s, g)]"
| "rmatch (Group n a) s g =
     map (\<lambda>(s', g'). (s', g'(n \<mapsto> take (length s - length s') s))) (rmatch a s g)"
| "rmatch EndOfText s g = (if s = [] \<or> s = [CHR 0x0A] then [(s, g)] else [])"

definition re_match :: "regex \<Rightarrow> string \<Rightarrow> groups option" where
  \<comment> \<open>\<^verbatim>\<open>pattern.match(text)\<close>: the groups of the first complete match, or None\<close>
  "re_match r s = (case rmatch r s (\<lambda>_. None) of [] \<Rightarrow> None | (_, g) # _ \<Rightarrow> Some g)"

definition NAME_RE :: regex where
  "NAME_RE =
     Seq (Group G_mouse (Seq (Lit ''p'') (Rep Digit 1 None True)))
    (Seq (Lit ''-'')
    (Seq (Rep Dot 0 None False)
    (Seq (Opt (Seq (Lit ''_'') (Group G_view (Rep Digit 3 (Some 6) True))))
    (Seq (Lit ''('')
    (Seq (Group G_kind (Alt (Lit ''microglia'') (Lit ''ribeyes'')))
    (Seq (Lit ''-'')
    (Seq (Group G_pos (Rep NotRParen 1 None True))
    (Seq (Lit '')'')
    (Seq (Lit ''_'')
    (Seq (Opt (Group G_tag (Alt (Lit ''Detailed'') (Lit ''Statistics''))))
    (Seq (Opt (Lit ''.csv''))
     EndOfText)))))))))))"

definition or_else :: "string option \<Rightarrow> string \<Rightarrow> string" where
  \<comment> \<open>\<^verbatim>\<open>x or d\<close> for \<^verbatim>\<open>x\<close> a string or None\<close>
  "or_else x d = (case x of None \<Rightarrow> d | Some v \<Rightarrow> if v = [] then d else v)"

type_synonym parsed = "string \<times> string \<times> string \<times> string"

definition parse_from_name :: "string \<Rightarrow> error + parsed option" where
  "parse_from_name name =
     (case re_match NAME_RE name of
        None \<Rightarrow> Inr None
      | Some m \<Rightarrow>
          (case m G_mouse of
             None \<Rightarrow> Inl AttributeError
           | Some mo \<Rightarrow>
               (let mouse = lower mo;
                    view = or_else (m G_view) ''/'';
                    pos = normalize_position (Some (or_else (m G_pos) ''''));
                    kind = lower (or_else (m G_kind) '''')
                in Inr (Some (mouse, view, pos, kind)))))"


section \<open>Natural ordering\<close>

text \<open>
  \<^verbatim>\<open>re.split(r"(\d+)", text)\<close> cuts the text at its maximal runs of decimal digits
  and keeps the runs: the result alternates text, digits, text, ..., text.
\<close>

function re_split_digits :: "string \<Rightarrow> string list" where
  "re_split_digits s =
     (case dropWhile (\<lambda>c. \<not> re_digit c) s of
        [] \<Rightarrow> [s]
      | d # r \<Rightarrow>
          takeWhile (\<lambda>c. \<not> re_digit c) s # (d # takeWhile re_digit r)
            # re_split_digits (dropWhile re_digit r))"
  by pat_completeness auto
termination
proof (relation "measure length")
  fix s :: string and d r
  assume "dropWhile (\<lambda>c. \<not> re_digit c) s = d # r"
  then have "length (d # r) \<le> length s"
    by (metis length_dropWhile_le)
  moreover have "length (dropWhile re_digit r) \<le> length r"
    by (rule length_dropWhile_le)
  ultimately show "(dropWhile re_digit r, s) \<in> measure length"
    by simp
qed simp

datatype tok = TInt int | TStr string

definition bind_err :: "error + 'a \<Rightarrow> ('a \<Rightarrow> error + 'b) \<Rightarrow> error + 'b" where
  "bind_err x f = (case x of Inl e \<Rightarrow> Inl e | Inr v \<Rightarrow> f v)"

fun map_err :: "('a \<Rightarrow> error + 'b) \<Rightarrow> 'a list \<Rightarrow> error + 'b list" where
  \<comment> \<open>a list comprehension whose element expression may raise\<close>
  "map_err f [] = Inr []"
| "map_err f (x # xs) =
     bind_err (f x) (\<lambda>y. bind_err (map_err f xs) (\<lambda>ys. Inr (y # ys)))"

definition int_of_digits :: "string \<Rightarrow> error + int" where
  \<comment> \<open>\<^verbatim>\<open>int(t)\<close> for a \<^verbatim>\<open>t\<close> with \<^verbatim>\<open>t.isdigit()\<close>: superscript digits are not a literal\<close>
  "int_of_digits t =
     (if list_all re_digit t
      then Inr (foldl (\<lambda>a c. 10 * a + (int (code c) - 48)) 0 t)
      else Inl ValueError)"

definition isdigit :: "string \<Rightarrow> bool" where
  \<comment> \<open>\<^verbatim>\<open>t.isdigit()\<close>\<close>
  "isdigit t = (t \<noteq> [] \<and> list_all py_isdigit t)"

definition natural_key :: "string \<Rightarrow> error + tok list" where
  "natural_key text =
     map_err (\<lambda>t. if isdigit t then bind_err (int_of_digits t) (\<lambda>n. Inr (TInt n))
                   else Inr (TStr (lower t)))
       (re_split_digits text)"

text \<open>
  Python compares two lists at the first index where the elements are not equal
  (an \<^verbatim>\<open>int\<close> never equals a \<^verbatim>\<open>str\<close>), and the shorter list is the smaller when one
  is a prefix of the other.  Ordering an \<^verbatim>\<open>int\<close> against a \<^verbatim>\<open>str\<close> raises TypeError.
\<close>

fun tok_lt :: "tok \<Rightarrow> tok \<Rightarrow> error + bool" where
  "tok_lt (TInt a) (TInt b) = Inr (a < b)"
| "tok_lt (TStr a) (TStr b) = Inr (a < b)"
| "tok_lt _ _ = Inl TypeError"

fun key_lt :: "tok list \<Rightarrow> tok list \<Rightarrow> error + bool" where
  "key_lt [] [] = Inr False"
| "key_lt [] (y # ys) = Inr True"
| "key_lt (x # xs) [] = Inr False"
| "key_lt (x # xs) (y # ys) = (if x = y then key_lt xs ys else tok_lt x y)"

text \<open>
  \<^verbatim>\<open>list.sort(key=f)\<close> computes the key of every element first, then sorts by
  \<^verbatim>\<open><\<close> on the keys, stably.  The stable arrangement is computed here by insertion
  from the right; an error of a key or of a comparison is the error of the sort.
\<close>

fun insert_by :: "tok list \<times> 'a \<Rightarrow> (tok list \<times> 'a) list \<Rightarrow> error + (tok list \<times> 'a) list" where
  "insert_by x [] = Inr [x]"
| "insert_by x (y # ys) =
     bind_err (key_lt (fst y) (fst x))
       (\<lambda>b. if b then bind_err (insert_by x ys) (\<lambda>r. Inr (y # r)) else Inr (x # y # ys))"

fun sort_pairs :: "(tok list \<times> 'a) list \<Rightarrow> error + (tok list \<times> 'a) list" where
  "sort_pairs [] = Inr []"
| "sort_pairs (x # xs) = bind_err (sort_pairs xs) (insert_by x)"

definition sort_by_key :: "('a \<Rightarrow> error + tok list) \<Rightarrow> 'a list \<Rightarrow> error + 'a list" where
  "sort_by_key f xs =
     bind_err (map_err (\<lambda>x. bind_err (f x) (\<lambda>k. Inr (k, x))) xs)
       (\<lambda>ps. bind_err (sort_pairs ps) (\<lambda>r. Inr (map snd r)))"


section \<open>Discovery\<close>

text \<open>
  The input tree: a directory is the list of its entries, in the order in which
  the operating system lists them.  A path is the list of the names below the
  input directory; \<^verbatim>\<open>os.path.relpath\<close> joins them with the separator of the
  platform, a parameter here, and \<^verbatim>\<open>os.path.basename\<close> is the last name.
\<close>

datatype entry = File | Folder "(string \<times> entry) list"

type_synonym path = "string list"

fun walk :: "path \<Rightarrow> (string \<times> entry) list \<Rightarrow> (path \<times> string list) list" where
  \<comment> \<open>the directories \<^verbatim>\<open>os.walk\<close> visits below the root, pruned as in \<^verbatim>\<open>list_all_dirs\<close>,
      each with what \<^verbatim>\<open>os.listdir\<close> gives for it\<close>
  "walk dir [] = []"
| "walk dir ((n, File) # es) = walk dir es"
| "walk dir ((n, Folder sub) # es) =
     (if startswith n ''.'' then []
      else (dir @ [n], map fst sub) # walk (dir @ [n]) sub) @ walk dir es"

definition list_all_dirs :: "string \<Rightarrow> (string \<times> entry) list \<Rightarrow> error + (path \<times> string list) list" where
  "list_all_dirs sep input_dir =
     sort_by_key (\<lambda>(p, _). natural_key (join sep p)) (walk [] input_dir)"

definition list_csv_in_dir :: "string list \<Rightarrow> error + string list" where
  \<comment> \<open>from the listing of the directory to the sorted names of its CSV files\<close>
  "list_csv_in_dir listing =
     sort_by_key natural_key
       (filter (\<lambda>f. \<not> startswith f ''~$'' \<and> endswith (lower f) ''.csv'') listing)"


section \<open>Aggregation\<close>

record 'v row =
  mouse_ID :: string
  view_id :: string
  position :: string
  Ribeyes :: "'v option"
  microglia :: "'v option"
  engulfment_index :: "'v option"

type_synonym key = "string \<times> string \<times> string"

text \<open>The \<^verbatim>\<open>OrderedDict\<close>: keys in the order of their first insertion.\<close>

type_synonym 'v summary = "(key \<times> 'v row) list"

definition new_row :: "key \<Rightarrow> 'v row" where
  "new_row k = (case k of (mouse, view, pos) \<Rightarrow>
     \<lparr>mouse_ID = mouse, view_id = view, position = pos,
      Ribeyes = None, microglia = None, engulfment_index = None\<rparr>)"

fun update_row :: "key \<Rightarrow> ('v row \<Rightarrow> 'v row) \<Rightarrow> 'v summary \<Rightarrow> 'v summary" where
  \<comment> \<open>\<^verbatim>\<open>summary[key][field] = val\<close>\<close>
  "update_row k f [] = []"
| "update_row k f ((k', r) # s) =
     (if k' = k then (k', f r) # s else (k', r) # update_row k f s)"

definition store :: "key \<Rightarrow> string \<Rightarrow> 'v option \<Rightarrow> 'v summary \<Rightarrow> 'v summary" where
  \<comment> \<open>lines 199 to 213 of \<^verbatim>\<open>build_summary\<close>\<close>
  "store k kind val summary =
     (let s1 = (if k \<in> set (map fst summary) then summary else summary @ [(k, new_row k)])
      in if kind = ''ribeyes'' then update_row k (\<lambda>r. r\<lparr>Ribeyes := val\<rparr>) s1
         else if kind = ''microglia'' then update_row k (\<lambda>r. r\<lparr>microglia := val\<rparr>) s1
         else s1)"

definition sniff :: "string \<Rightarrow> string option" where
  \<comment> \<open>lines 188 to 194: the kind from the file name, None where the loop continues\<close>
  "sniff csv_name =
     (let l = lower csv_name in
      if contains ''ribeyes'' l then Some ''ribeyes''
      else if contains ''microglia'' l then Some ''microglia''
      else None)"

definition resolve :: "key option \<Rightarrow> string \<Rightarrow> error + (key \<times> string) option" where
  \<comment> \<open>lines 176 to 194: the key and the kind of one file, None where the loop continues\<close>
  "resolve fixed csv_name =
     bind_err (parse_from_name csv_name) (\<lambda>parsed_csv.
       (case (case fixed of
                Some k \<Rightarrow> Some (k, map_option (\<lambda>(_, _, _, kind). kind) parsed_csv)
              | None \<Rightarrow>
                  (case parsed_csv of
                     None \<Rightarrow> None
                   | Some (mouse, view, pos, kind) \<Rightarrow> Some ((mouse, view, pos), Some kind)))
        of None \<Rightarrow> Inr None
         | Some (k, kind) \<Rightarrow>
             (if kind = None \<or> kind = Some []
              then Inr (map_option (\<lambda>kd. (k, kd)) (sniff csv_name))
              else Inr (Some (k, or_else kind [])))))"

definition csv_step :: "(path \<Rightarrow> 'v option) \<Rightarrow> path \<Rightarrow> key option \<Rightarrow> string \<Rightarrow> 'v summary
    \<Rightarrow> error + 'v summary" where
  \<comment> \<open>the body of the loop over the files of a directory; \<^verbatim>\<open>read\<close> is
      \<^verbatim>\<open>first_float_in_first_column\<close>\<close>
  "csv_step read d fixed csv_name summary =
     bind_err (resolve fixed csv_name) (\<lambda>r.
       (case r of
          None \<Rightarrow> Inr summary
        | Some (k, kind) \<Rightarrow> Inr (store k kind (read (d @ [csv_name])) summary)))"

fun fold_err :: "('a \<Rightarrow> 's \<Rightarrow> error + 's) \<Rightarrow> 'a list \<Rightarrow> 's \<Rightarrow> error + 's" where
  \<comment> \<open>a \<^verbatim>\<open>for\<close> loop whose body may raise\<close>
  "fold_err f [] s = Inr s"
| "fold_err f (x # xs) s = bind_err (f x s) (fold_err f xs)"

definition dir_step :: "(path \<Rightarrow> 'v option) \<Rightarrow> path \<times> string list \<Rightarrow> 'v summary
    \<Rightarrow> error + 'v summary" where
  \<comment> \<open>the body of the loop over the directories\<close>
  "dir_step read dl summary =
     (case dl of (d, listing) \<Rightarrow>
        bind_err (parse_from_name (last d)) (\<lambda>folder_parsed.
        bind_err (list_csv_in_dir listing) (\<lambda>csvs.
          if csvs = [] then Inr summary
          else fold_err (csv_step read d
                 (map_option (\<lambda>(mouse, view, pos, _). (mouse, view, pos)) folder_parsed))
                 csvs summary)))"

definition build_summary :: "string \<Rightarrow> (path \<Rightarrow> 'v option) \<Rightarrow> (string \<times> entry) list
    \<Rightarrow> error + 'v summary" where
  "build_summary sep read input_dir =
     bind_err (list_all_dirs sep input_dir) (\<lambda>all_dirs. fold_err (dir_step read) all_dirs [])"


section \<open>Predicates used to state the properties\<close>

definition lower_alnum :: "char \<Rightarrow> bool" where
  \<comment> \<open>a lower-case letter or a digit\<close>
  "lower_alnum c = (let n = code c in (97 \<le> n \<and> n \<le> 122) \<or> (48 \<le> n \<and> n \<le> 57))"

definition group_at :: "string \<Rightarrow> bool" where
  \<comment> \<open>the text starts with a parenthesised group \<^verbatim>\<open>(kind-position)\<close>\<close>
  "group_at s =
     list_ex (\<lambda>kind.
        lower (take (length kind + 2) s) = ''('' @ kind @ ''-'' \<and>
        (let r = drop (length kind + 2) s; p = takeWhile (\<lambda>c. c \<noteq> CHR '')'') r
         in p \<noteq> [] \<and> length p < length r))
       [''microglia'', ''ribeyes'']"

fun has_kind_group :: "string \<Rightarrow> bool" where
  \<comment> \<open>the name carries a parenthesised group \<^verbatim>\<open>(kind-position)\<close> somewhere\<close>
  "has_kind_group [] = False"
| "has_kind_group (c # cs) = (group_at (c # cs) \<or> has_kind_group cs)"

definition coherent :: "'v summary \<Rightarrow> bool" where
  \<comment> \<open>every key maps to one record, whose identity fields are the key\<close>
  "coherent s =
     (distinct (map fst s) \<and>
      list_all (\<lambda>(k, r). k = (mouse_ID r, view_id r, position r)) s)"


definition ident :: "key \<times> 'v row \<Rightarrow> key \<times> key" where
  \<comment> \<open>a key with the identity fields of its record\<close>
  "ident kr = (fst kr, (mouse_ID (snd kr), view_id (snd kr), position (snd kr)))"

text \<open>
  The events of a run: for every file that the loops of \<^verbatim>\<open>build_summary\<close> do not
  skip, in the order in which they reach it, the key and the kind the file
  resolves to and the value read from it.  A run is its events written to the
  empty table one after the other.
\<close>

type_synonym 'v event = "key \<times> string \<times> 'v option"

fun concat_err :: "('a \<Rightarrow> error + 'b list) \<Rightarrow> 'a list \<Rightarrow> error + 'b list" where
  "concat_err f [] = Inr []"
| "concat_err f (x # xs) =
     bind_err (f x) (\<lambda>ys. bind_err (concat_err f xs) (\<lambda>zs. Inr (ys @ zs)))"

definition csv_events :: "(path \<Rightarrow> 'v option) \<Rightarrow> path \<Rightarrow> key option \<Rightarrow> string
    \<Rightarrow> error + 'v event list" where
  "csv_events read d fixed csv_name =
     bind_err (resolve fixed csv_name) (\<lambda>r.
       Inr (case r of None \<Rightarrow> [] | Some (k, kind) \<Rightarrow> [(k, kind, read (d @ [csv_name]))]))"

definition dir_events :: "(path \<Rightarrow> 'v option) \<Rightarrow> path \<times> string list \<Rightarrow> error + 'v event list" where
  "dir_events read dl =
     (case dl of (d, listing) \<Rightarrow>
        bind_err (parse_from_name (last d)) (\<lambda>folder_parsed.
        bind_err (list_csv_in_dir listing) (\<lambda>csvs.
          concat_err (csv_events read d
            (map_option (\<lambda>(mouse, view, pos, _). (mouse, view, pos)) folder_parsed)) csvs)))"

definition run_events :: "string \<Rightarrow> (path \<Rightarrow> 'v option) \<Rightarrow> (string \<times> entry) list
    \<Rightarrow> error + 'v event list" where
  "run_events sep read input_dir =
     bind_err (list_all_dirs sep input_dir) (concat_err (dir_events read))"

definition apply_events :: "'v event list \<Rightarrow> 'v summary \<Rightarrow> 'v summary" where
  "apply_events evs s = foldl (\<lambda>t (k, kind, val). store k kind val t) s evs"

definition read_example :: "path \<Rightarrow> real option" where
  \<comment> \<open>a reader for the examples: the first number of two files of a folder \<^verbatim>\<open>batch\<close>\<close>
  "read_example pth =
     (if pth = [''batch'', ''p1-a(ribeyes-opl)_Statistics.csv''] then Some 2.5
      else if pth = [''batch'', ''p1-b(microglia-opl)_Detailed.csv''] then Some 1.25
      else None)"


section \<open>Facts about characters and strings\<close>

lemma code_char_of: "n < 256 \<Longrightarrow> code (char_of n) = n"
  by (simp add: code_def)

lemma code_lt: "code c < 256"
  by (simp add: code_def)

lemma code_inj: "code a = code b \<Longrightarrow> a = b"
  by (simp add: code_def)

lemma code_lower_char:
  "code (lower_char c) =
     (if (65 \<le> code c \<and> code c \<le> 90) \<or> (192 \<le> code c \<and> code c \<le> 222 \<and> code c \<noteq> 215)
      then code c + 32 else code c)"
  using code_lt[of c] by (simp add: lower_char_def Let_def code_char_of)

lemma code_plus: "c = CHR ''+'' \<longleftrightarrow> code c = 43"
  using code_inj[of c "CHR ''+''"] by (auto simp: code_def)

lemma code_space: "c = CHR '' '' \<longleftrightarrow> code c = 32"
  using code_inj[of c "CHR '' ''"] by (auto simp: code_def)

lemma lower_char_alnum:
  assumes "lower_alnum (lower_char c)"
  shows "\<not> py_isspace c" "c \<noteq> CHR ''+''" "c \<noteq> CHR '' ''"
    "lower_char c \<noteq> CHR ''+''" "lower_char c \<noteq> CHR '' ''"
  using assms
  by (auto simp: lower_alnum_def py_isspace_def Let_def code_lower_char code_plus code_space
      split: if_splits)

lemma lower_char_plus: "lower_char CHR ''+'' = CHR ''+''"
  by (simp add: lower_char_def code_def)

lemma lower_char_not_space: "c \<noteq> CHR '' '' \<Longrightarrow> lower_char c \<noteq> CHR '' ''"
  by (auto simp: code_space code_lower_char split: if_splits)

lemma strip_surround:
  assumes "list_all py_isspace pre" "list_all py_isspace post" "\<forall>c\<in>set body. \<not> py_isspace c"
  shows "strip (pre @ body @ post) = body"
proof (cases body)
  case Nil
  have d: "dropWhile py_isspace (pre @ body @ post) = []"
    unfolding dropWhile_eq_Nil_conv using assms Nil by (auto simp: list_all_iff)
  show ?thesis unfolding strip_def d using Nil by simp
next
  case (Cons b bs)
  have 1: "dropWhile py_isspace (pre @ body @ post) = body @ post"
    using assms Cons by (simp add: list_all_iff dropWhile_append2)
  have "rev (body @ post) = rev post @ rev body" by simp
  moreover have "dropWhile py_isspace (rev post @ rev body) = dropWhile py_isspace (rev body)"
    by (rule dropWhile_append2) (use assms in \<open>auto simp: list_all_iff\<close>)
  moreover have "dropWhile py_isspace (rev body) = rev body"
  proof -
    have "last body \<in> set body" using Cons by simp
    then have "\<not> py_isspace (hd (rev body))" using assms(3) Cons by (simp only: hd_rev) blast
    then show ?thesis unfolding dropWhile_eq_self_iff by simp
  qed
  ultimately show ?thesis using 1 by (simp add: strip_def)
qed

lemma split_on_no_sep: "c \<notin> set y \<Longrightarrow> split_on c y = [y]"
  by (induction y) auto

lemma split_on_append: "c \<notin> set y \<Longrightarrow> split_on c (y @ c # r) = y # split_on c r"
  by (induction y) auto

lemma split_join:
  "ys \<noteq> [] \<Longrightarrow> \<forall>y\<in>set ys. c \<notin> set y \<Longrightarrow> split_on c (join [c] ys) = ys"
  by (induction "[c]" ys rule: join.induct) (auto simp: split_on_no_sep split_on_append)

lemma lower_join: "lower (join ''+'' xs) = join ''+'' (map lower xs)"
  by (induction "''+''" xs rule: join.induct) (auto simp: lower_def lower_char_plus)

lemma set_join: "set (join sep ps) \<subseteq> set sep \<union> \<Union> (set ` set ps)"
  by (induction sep ps rule: join.induct) auto

lemma split_on_not_Nil: "split_on c s \<noteq> []"
  by (induction s) (auto split: list.splits)

lemma set_split_on: "x \<in> set (split_on c s) \<Longrightarrow> set x \<subseteq> set s"
proof (induction s arbitrary: x)
  case Nil
  then show ?case by simp
next
  case (Cons a s)
  obtain p ps where ps: "split_on c s = p # ps"
    using split_on_not_Nil[of c s] by (cases "split_on c s") auto
  show ?case
  proof (cases "a = c")
    case True
    with Cons show ?thesis by auto
  next
    case False
    with Cons.prems ps have "x = a # p \<or> x \<in> set ps" by auto
    then show ?thesis
    proof
      assume "x = a # p"
      moreover have "set p \<subseteq> set s" using Cons.IH[of p] ps by simp
      ultimately show ?thesis by auto
    next
      assume "x \<in> set ps"
      then have "set x \<subseteq> set s" using Cons.IH[of x] ps by simp
      then show ?thesis by auto
    qed
  qed
qed

lemma plus_in_join: "CHR ''+'' \<in> set (join ''+'' ys) \<longleftrightarrow> (CHR ''+'' \<in> \<Union> (set ` set ys) \<or> 2 \<le> length ys)"
  by (induction "''+''" ys rule: join.induct) auto


section \<open>Position normalisation: properties\<close>

lemma normalize_tag:
  assumes ss: "\<forall>s\<in>set ss. s \<noteq> [] \<and> list_all lower_alnum s"
    and ne: "ss \<noteq> []"
    and perm: "mset (map lower xs) = mset ss"
    and pre: "list_all py_isspace pre" and post: "list_all py_isspace post"
  shows "normalize_position (Some (pre @ join ''+'' xs @ post)) = join ''+'' (sort ss)"
proof -
  let ?ys = "map lower xs"
  have set_eq: "set ?ys = set ss" using perm by (metis set_mset_mset)
  have ys_ne: "?ys \<noteq> []" using perm ne by auto
  have ys: "\<forall>y\<in>set ?ys. y \<noteq> [] \<and> list_all lower_alnum y" using ss set_eq by blast
  have xs_chars: "\<forall>x\<in>set xs. \<forall>c\<in>set x. lower_alnum (lower_char c)"
    using ys by (auto simp: lower_def list_all_iff)
  have body_nospace: "\<forall>c\<in>set (join ''+'' xs). \<not> py_isspace c"
  proof
    fix c assume "c \<in> set (join ''+'' xs)"
    then have "c = CHR ''+'' \<or> (\<exists>x\<in>set xs. c \<in> set x)"
      using set_join[of "''+''" xs] by auto
    then show "\<not> py_isspace c"
      using xs_chars lower_char_alnum(1) by (auto simp: py_isspace_def code_def)
  qed
  have strip: "strip (pre @ join ''+'' xs @ post) = join ''+'' xs"
    using strip_surround[OF pre post body_nospace] .
  have ys_chars: "\<forall>y\<in>set ?ys. \<forall>c\<in>set y. c \<noteq> CHR '' '' \<and> c \<noteq> CHR ''+''"
    using xs_chars lower_char_alnum(4,5) by (auto simp: lower_def)
  have nospace: "filter (\<lambda>c. c \<noteq> CHR '' '') (join ''+'' ?ys) = join ''+'' ?ys"
  proof -
    have "\<forall>c\<in>set (join ''+'' ?ys). c \<noteq> CHR '' ''"
    proof
      fix c assume "c \<in> set (join ''+'' ?ys)"
      then have "c = CHR ''+'' \<or> (\<exists>y\<in>set ?ys. c \<in> set y)"
        using set_join[of "''+''" ?ys] by auto
      then show "c \<noteq> CHR '' ''" using ys_chars by auto
    qed
    then show ?thesis by (simp add: filter_id_conv)
  qed
  have pos: "filter (\<lambda>c. c \<noteq> CHR '' '') (lower (strip (pre @ join ''+'' xs @ post))) = join ''+'' ?ys"
    by (simp only: strip lower_join nospace)
  have sorted_eq: "sort ?ys = sort ss"
    using perm by (metis properties_for_sort sorted_sort mset_sort)
  show ?thesis
  proof (cases "CHR ''+'' \<in> set (join ''+'' ?ys)")
    case True
    have "split_on CHR ''+'' (join ''+'' ?ys) = ?ys"
      using split_join[of ?ys "CHR ''+''"] ys_ne ys_chars by auto
    moreover have "filter (\<lambda>p. p \<noteq> []) ?ys = ?ys"
      using ys by (simp add: filter_id_conv)
    ultimately show ?thesis
      using True by (simp add: normalize_position_def pos sorted_eq del: set_map)
  next
    case False
    then have "length ?ys < 2" using plus_in_join[of ?ys] by auto
    then obtain y where y: "?ys = [y]" using ys_ne
      by (cases ?ys) (auto simp: length_Suc_conv)
    then have "sort ss = [y]" using sorted_eq by (metis sort_key_simps(1,2) insort_key.simps(1))
    then show ?thesis using False y by (simp add: normalize_position_def pos del: set_map)
  qed
qed

text \<open>
  C3.  Two position tags that are \<^verbatim>\<open>+\<close>-joins of permutations of the same non-empty
  list of non-empty lower-case alphanumeric segments, up to the case of the
  letters and to white space around the tag, normalise to the same string: the
  segments sorted ascending and joined by \<^verbatim>\<open>+\<close>.
\<close>

theorem normalize_permutation_invariant:
  assumes "ss \<noteq> []" and "\<forall>s\<in>set ss. s \<noteq> [] \<and> list_all lower_alnum s"
    and "mset (map lower xs) = mset ss" and "mset (map lower ys) = mset ss"
    and "list_all py_isspace pre1" and "list_all py_isspace post1"
    and "list_all py_isspace pre2" and "list_all py_isspace post2"
  shows "normalize_position (Some (pre1 @ join ''+'' xs @ post1)) =
         normalize_position (Some (pre2 @ join ''+'' ys @ post2)) \<and>
         normalize_position (Some (pre1 @ join ''+'' xs @ post1)) = join ''+'' (sort ss)"
  using assms by (simp add: normalize_tag)

theorem normalize_permutation_invariant_witness:
  "normalize_position (Some ''opl+ipl'') = normalize_position (Some ''ipl+opl'') \<and>
   normalize_position (Some ''opl+ipl'') = ''ipl+opl''"
proof -
  have 1: "[''opl'', ''ipl''] \<noteq> []" by simp
  have 2: "\<forall>s\<in>set [''opl'', ''ipl'']. s \<noteq> [] \<and> list_all lower_alnum s"
    by (simp add: lower_alnum_def code_def)
  have 3: "mset (map lower [''opl'', ''ipl'']) = mset [''opl'', ''ipl'']"
    by (simp add: lower_def lower_char_def code_def)
  have 4: "mset (map lower [''ipl'', ''opl'']) = mset [''opl'', ''ipl'']"
    by (simp add: lower_def lower_char_def code_def)
  have 5: "list_all py_isspace []" by simp
  have 6: "sort [''opl'', ''ipl''] = [''ipl'', ''opl'']" by code_simp
  have 7: "[] @ join ''+'' [''opl'', ''ipl''] @ [] = ''opl+ipl''" by simp
  have 8: "[] @ join ''+'' [''ipl'', ''opl''] @ [] = ''ipl+opl''" by simp
  have 9: "join ''+'' [''ipl'', ''opl''] = ''ipl+opl''" by simp
  have 10: "join ''+'' [''opl'', ''ipl''] = ''opl+ipl''" by simp
  show ?thesis
    by (rule normalize_permutation_invariant[OF 1 2 3 4 5 5 5 5, unfolded 6 9 10 append_Nil append_Nil2])
qed

lemma py_isspace_space: "py_isspace CHR '' ''"
  by (simp add: py_isspace_def code_def)

lemma lower_char_space: "lower_char CHR '' '' = CHR '' ''"
  by (simp add: lower_char_def code_def)

lemma strip_pad:
  assumes pre: "list_all py_isspace pre" and post: "list_all py_isspace post"
  shows "strip (pre @ s @ post) = strip s"
proof -
  have 1: "dropWhile py_isspace (pre @ s @ post) = dropWhile py_isspace (s @ post)"
    using pre by (intro dropWhile_append2) (simp add: list_all_iff)
  show ?thesis
  proof (cases "\<forall>c\<in>set s. py_isspace c")
    case True
    have a: "dropWhile py_isspace (s @ post) = []"
      using True post by (auto simp: list_all_iff)
    have b: "dropWhile py_isspace s = []"
      using True by simp
    show ?thesis by (simp only: strip_def 1 a b)
  next
    case False
    then obtain c where "c \<in> set s" "\<not> py_isspace c" by blast
    then have 2: "dropWhile py_isspace (s @ post) = dropWhile py_isspace s @ post"
      by (rule dropWhile_append1)
    have "dropWhile py_isspace (rev post @ rev (dropWhile py_isspace s)) =
            dropWhile py_isspace (rev (dropWhile py_isspace s))"
      using post by (intro dropWhile_append2) (simp add: list_all_iff)
    then show ?thesis by (simp only: strip_def 1 2 rev_append)
  qed
qed

lemma dropWhile_filter_space:
  "dropWhile py_isspace (filter (\<lambda>c. c \<noteq> CHR '' '') s) =
     filter (\<lambda>c. c \<noteq> CHR '' '') (dropWhile py_isspace s)"
  by (induction s) (auto simp: py_isspace_space)

lemma strip_filter_space:
  "strip (filter (\<lambda>c. c \<noteq> CHR '' '') s) = filter (\<lambda>c. c \<noteq> CHR '' '') (strip s)"
  unfolding strip_def
  by (simp only: dropWhile_filter_space rev_filter)

lemma filter_lower_filter:
  "filter (\<lambda>c. c \<noteq> CHR '' '') (lower (filter (\<lambda>c. c \<noteq> CHR '' '') s)) =
     filter (\<lambda>c. c \<noteq> CHR '' '') (lower s)"
  by (induction s) (auto simp: lower_def lower_char_space)

lemma normalize_pad:
  "list_all py_isspace pre \<Longrightarrow> list_all py_isspace post \<Longrightarrow>
   normalize_position (Some (pre @ s @ post)) = normalize_position (Some s)"
  by (simp add: normalize_position_def strip_pad)

lemma normalize_spaces:
  "normalize_position (Some (filter (\<lambda>c. c \<noteq> CHR '' '') s)) = normalize_position (Some s)"
  by (simp add: normalize_position_def strip_filter_space filter_lower_filter)

lemma split_on_parts: "y \<in> set (split_on c s) \<Longrightarrow> c \<notin> set y"
proof (induction s arbitrary: y)
  case Nil
  then show ?case by simp
next
  case (Cons a s)
  show ?case
  proof (cases "a = c")
    case True
    with Cons show ?thesis by auto
  next
    case False
    obtain p ps where ps: "split_on c s = p # ps"
      using split_on_not_Nil[of c s] by (cases "split_on c s") auto
    with Cons.prems False have "y = a # p \<or> y \<in> set ps" by auto
    then show ?thesis
      using Cons.IH[of p] Cons.IH[of y] ps False by auto
  qed
qed

lemma concat_split_on: "concat (split_on c s) = filter (\<lambda>x. x \<noteq> c) s"
proof (induction s)
  case Nil
  show ?case by simp
next
  case (Cons a s)
  obtain p ps where ps: "split_on c s = p # ps"
    using split_on_not_Nil[of c s] by (cases "split_on c s") auto
  with Cons show ?case by auto
qed

lemma concat_nonempty: "concat (filter (\<lambda>p. p \<noteq> []) xs) = concat xs"
  by (induction xs) auto

lemma filter_join:
  "\<forall>y\<in>set ys. c \<notin> set y \<Longrightarrow> filter (\<lambda>x. x \<noteq> c) (join [c] ys) = concat ys"
  by (induction "[c]" ys rule: join.induct) (auto simp: filter_id_conv)

lemma mset_concat_sort: "mset (concat (sort xs)) = mset (concat xs)"
proof -
  have "mset (concat (sort xs)) = sum_mset (mset (map mset (sort xs)))"
    by (simp only: mset_concat sum_mset_sum_list)
  also have "\<dots> = sum_mset (mset (map mset xs))"
    by simp
  also have "\<dots> = mset (concat xs)"
    by (simp only: mset_concat sum_mset_sum_list)
  finally show ?thesis .
qed

lemma normalize_kept:
  "mset (filter (\<lambda>c. c \<noteq> CHR ''+'') (normalize_position (Some s))) =
   mset (filter (\<lambda>c. c \<noteq> CHR ''+'' \<and> c \<noteq> CHR '' '') (lower (strip s)))"
proof -
  let ?pos = "filter (\<lambda>c. c \<noteq> CHR '' '') (lower (strip s))"
  let ?parts = "filter (\<lambda>p. p \<noteq> []) (split_on CHR ''+'' ?pos)"
  have k: "filter (\<lambda>c. c \<noteq> CHR ''+'') ?pos =
             filter (\<lambda>c. c \<noteq> CHR ''+'' \<and> c \<noteq> CHR '' '') (lower (strip s))"
    by (simp only: filter_filter) (rule filter_cong, auto)
  show ?thesis
  proof (cases "CHR ''+'' \<in> set ?pos")
    case False
    then have "normalize_position (Some s) = ?pos"
      by (simp add: normalize_position_def)
    then show ?thesis by (simp only: k)
  next
    case True
    then have n: "normalize_position (Some s) = join ''+'' (sort ?parts)"
      by (simp add: normalize_position_def Let_def)
    have "\<forall>y\<in>set (sort ?parts). CHR ''+'' \<notin> set y"
      using split_on_parts[of _ "CHR ''+''" ?pos] by auto
    from filter_join[OF this]
    have "filter (\<lambda>c. c \<noteq> CHR ''+'') (join ''+'' (sort ?parts)) = concat (sort ?parts)" .
    then have "mset (filter (\<lambda>c. c \<noteq> CHR ''+'') (normalize_position (Some s))) =
                 mset (concat ?parts)"
      by (simp only: n mset_concat_sort)
    also have "\<dots> = mset (filter (\<lambda>c. c \<noteq> CHR ''+'') ?pos)"
      by (simp only: concat_nonempty concat_split_on)
    finally show ?thesis by (simp only: k)
  qed
qed

lemma lower_char_eq_plus: "lower_char c = CHR ''+'' \<Longrightarrow> c = CHR ''+''"
  by (auto simp: code_plus code_lower_char split: if_splits)

lemma lower_no_plus: "CHR ''+'' \<notin> set s \<Longrightarrow> CHR ''+'' \<notin> set (lower s)"
  using lower_char_eq_plus by (fastforce simp: lower_def)

lemma set_strip: "set (strip s) \<subseteq> set s"
  by (auto simp: strip_def dest!: set_dropWhileD)

lemma normalize_no_plus:
  assumes "CHR ''+'' \<notin> set s"
  shows "normalize_position (Some s) = filter (\<lambda>c. c \<noteq> CHR '' '') (lower (strip s))"
proof -
  have "CHR ''+'' \<notin> set (strip s)" using assms set_strip by blast
  then have "CHR ''+'' \<notin> set (lower (strip s))" by (rule lower_no_plus)
  then show ?thesis by (simp add: normalize_position_def)
qed

lemma normalize_result_no_space: "CHR '' '' \<notin> set (normalize_position p)"
proof (cases p)
  case None
  then show ?thesis by (simp add: normalize_position_def)
next
  case (Some raw)
  let ?pos = "filter (\<lambda>c. c \<noteq> CHR '' '') (lower (strip raw))"
  have pos: "CHR '' '' \<notin> set ?pos" by simp
  show ?thesis
  proof (cases "CHR ''+'' \<in> set ?pos")
    case False
    then show ?thesis using Some pos by (simp add: normalize_position_def)
  next
    case True
    let ?parts = "filter (\<lambda>p. p \<noteq> []) (split_on CHR ''+'' ?pos)"
    have "\<forall>x\<in>set (sort ?parts). set x \<subseteq> set ?pos"
      using set_split_on[of _ "CHR ''+''" ?pos] by auto
    then have "set (join ''+'' (sort ?parts)) \<subseteq> {CHR ''+''} \<union> set ?pos"
      using set_join[of "''+''" "sort ?parts"] by auto
    then have "CHR '' '' \<notin> set (join ''+'' (sort ?parts))"
      using pos by auto
    then show ?thesis using Some True by (simp add: normalize_position_def Let_def)
  qed
qed

text \<open>
  C8, amended.  \<^verbatim>\<open>normalize_position\<close> strips the white space at both ends of its
  input: white space added around the input does not change the result.  It
  removes every space character U+0020: deleting the spaces of the input first
  does not change the result, and the result never contains a space character.
  Every other character is kept, in lower case, other white space inside the
  tag included: apart from \<^verbatim>\<open>+\<close>, the result holds exactly the lower-cased
  characters of the stripped input that are not spaces, and for an input without
  \<^verbatim>\<open>+\<close> it is these characters in their order.
\<close>

theorem normalize_space_handling:
  "(list_all py_isspace pre \<and> list_all py_isspace post \<longrightarrow>
      normalize_position (Some (pre @ s @ post)) = normalize_position (Some s)) \<and>
   normalize_position (Some (filter (\<lambda>c. c \<noteq> CHR '' '') s)) = normalize_position (Some s) \<and>
   CHR '' '' \<notin> set (normalize_position p) \<and>
   mset (filter (\<lambda>c. c \<noteq> CHR ''+'') (normalize_position (Some s))) =
     mset (filter (\<lambda>c. c \<noteq> CHR ''+'' \<and> c \<noteq> CHR '' '') (lower (strip s))) \<and>
   (CHR ''+'' \<notin> set s \<longrightarrow>
      normalize_position (Some s) = filter (\<lambda>c. c \<noteq> CHR '' '') (lower (strip s)))"
  using normalize_pad[of pre post s] normalize_spaces[of s] normalize_result_no_space[of p]
    normalize_kept[of s] normalize_no_plus[of s]
  by blast

theorem normalize_space_handling_witness:
  "normalize_position (Some ([CHR 0x09] @ [CHR ''A'', CHR '' '', CHR 0x09, CHR ''b''] @ [CHR 0x0A])) =
     normalize_position (Some [CHR ''A'', CHR '' '', CHR 0x09, CHR ''b'']) \<and>
   normalize_position (Some [CHR ''A'', CHR '' '', CHR 0x09, CHR ''b'']) =
     filter (\<lambda>c. c \<noteq> CHR '' '') (lower (strip [CHR ''A'', CHR '' '', CHR 0x09, CHR ''b'']))"
proof -
  have 1: "list_all py_isspace [CHR 0x09]" "list_all py_isspace [CHR 0x0A]"
    by (simp_all add: py_isspace_def code_def)
  have 2: "CHR ''+'' \<notin> set [CHR ''A'', CHR '' '', CHR 0x09, CHR ''b'']"
    by simp
  show ?thesis
    using normalize_space_handling[of "[CHR 0x09]" "[CHR 0x0A]"
        "[CHR ''A'', CHR '' '', CHR 0x09, CHR ''b'']" None] 1 2
    by blast
qed

text \<open>
  C8 as stated fails: a tab inside the tag is white space and is kept.
\<close>

theorem normalize_keeps_tab:
  "normalize_position (Some [CHR ''a'', CHR 0x09, CHR ''b'']) = [CHR ''a'', CHR 0x09, CHR ''b''] \<and>
   py_isspace (CHR 0x09)"
  by code_simp


section \<open>The matcher and the parenthesised group\<close>

lemma rmatch_suffix: "(s', g') \<in> set (rmatch r s g) \<Longrightarrow> \<exists>w. s = w @ s'"
proof (induction r arbitrary: s g s' g')
  case (Lit l)
  then show ?case by (auto split: if_splits intro: exI[of _ "take (length l) s"])
next
  case (Rep k lo hi gr)
  then show ?case by (auto simp: Let_def split: if_splits intro: append_take_drop_id[symmetric])
next
  case (Seq a b)
  then obtain s1 g1 where 1: "(s1, g1) \<in> set (rmatch a s g)" and 2: "(s', g') \<in> set (rmatch b s1 g1)"
    by auto
  from Seq.IH(1)[OF 1] Seq.IH(2)[OF 2] show ?case by auto
next
  case (Alt a b)
  then show ?case by auto
next
  case (Opt a)
  then show ?case by auto
next
  case (Group n a)
  then show ?case by auto
next
  case EndOfText
  then show ?case by (auto split: if_splits)
qed

lemma rmatch_Seq:
  "x \<in> set (rmatch (Seq a b) s g) \<longleftrightarrow>
     (\<exists>s1 g1. (s1, g1) \<in> set (rmatch a s g) \<and> x \<in> set (rmatch b s1 g1))"
  by auto

lemma rmatch_Lit:
  "(s', g') \<in> set (rmatch (Lit l) s g) \<Longrightarrow>
     length l \<le> length s \<and> lower (take (length l) s) = lower l \<and> s' = drop (length l) s"
  by (auto split: if_splits)

lemma rmatch_Group: "(s', g') \<in> set (rmatch (Group n a) s g) \<Longrightarrow> \<exists>g1. (s', g1) \<in> set (rmatch a s g)"
  by auto

lemma rmatch_Rep:
  "(s', g') \<in> set (rmatch (Rep k lo None gr) s g) \<Longrightarrow>
     \<exists>i. lo \<le> i \<and> i \<le> length (takeWhile (in_class k) s) \<and> s' = drop i s"
  by (auto simp: Let_def split: if_splits)

lemma lower_char_low:
  assumes "code (lower_char c) < 97"
  shows "lower_char c = c"
proof -
  have "\<not> ((65 \<le> code c \<and> code c \<le> 90) \<or> (192 \<le> code c \<and> code c \<le> 222 \<and> code c \<noteq> 215))"
    using assms by (auto simp: code_lower_char split: if_splits)
  then show ?thesis by (auto simp: lower_char_def Let_def)
qed

lemma lower_single: "code d < 97 \<Longrightarrow> lower_char c = d \<Longrightarrow> c = d"
  using lower_char_low[of c] by auto

lemma lower_lit:
  "lower ''('' = ''(''" "lower '')'' = '')''" "lower ''-'' = ''-''"
  "lower ''microglia'' = ''microglia''" "lower ''ribeyes'' = ''ribeyes''"
  by (simp_all add: lower_def lower_char_def code_def)

lemma take_one_lower:
  assumes "1 \<le> length s" "lower (take 1 s) = [d]" "code d < 97"
  shows "\<exists>t. s = d # t"
proof -
  obtain c t where s: "s = c # t" using assms(1) by (cases s) auto
  with assms(2) have "lower_char c = d" by (simp add: lower_def)
  with assms(3) have "c = d" using lower_single by blast
  with s show ?thesis by simp
qed

lemma in_class_NotRParen: "in_class NotRParen = (\<lambda>c. c \<noteq> CHR '')'')"
  by (rule ext) simp

lemma group_tail:
  assumes "x \<in> set (rmatch
      (Seq (Lit ''('')
      (Seq (Group G_kind (Alt (Lit ''microglia'') (Lit ''ribeyes'')))
      (Seq (Lit ''-'')
      (Seq (Group G_pos (Rep NotRParen 1 None True))
      (Seq (Lit '')'') R))))) s g)"
  shows "group_at s"
proof -
  from assms obtain s1 g1 s2 g2 s3 g3 s4 g4 s5 g5 where
    m1: "(s1, g1) \<in> set (rmatch (Lit ''('') s g)" and
    m2: "(s2, g2) \<in> set (rmatch (Group G_kind (Alt (Lit ''microglia'') (Lit ''ribeyes''))) s1 g1)" and
    m3: "(s3, g3) \<in> set (rmatch (Lit ''-'') s2 g2)" and
    m4: "(s4, g4) \<in> set (rmatch (Group G_pos (Rep NotRParen 1 None True)) s3 g3)" and
    m5: "(s5, g5) \<in> set (rmatch (Lit '')'') s4 g4)"
    unfolding rmatch_Seq by blast
  from rmatch_Lit[OF m1] have s: "s = CHR ''('' # s1"
    using take_one_lower[of s "CHR ''(''"] by (auto simp: lower_lit code_def)
  from rmatch_Group[OF m2] obtain g2' where
    "(s2, g2') \<in> set (rmatch (Alt (Lit ''microglia'') (Lit ''ribeyes'')) s1 g1)" by blast
  then have "(s2, g2') \<in> set (rmatch (Lit ''microglia'') s1 g1) \<or>
             (s2, g2') \<in> set (rmatch (Lit ''ribeyes'') s1 g1)" by simp
  then have "\<exists>kind. (kind = ''microglia'' \<or> kind = ''ribeyes'') \<and> length kind \<le> length s1 \<and>
      lower (take (length kind) s1) = kind \<and> s2 = drop (length kind) s1"
  proof
    assume "(s2, g2') \<in> set (rmatch (Lit ''microglia'') s1 g1)"
    from rmatch_Lit[OF this] show ?thesis unfolding lower_lit by blast
  next
    assume "(s2, g2') \<in> set (rmatch (Lit ''ribeyes'') s1 g1)"
    from rmatch_Lit[OF this] show ?thesis unfolding lower_lit by blast
  qed
  then obtain kind where kind: "kind = ''microglia'' \<or> kind = ''ribeyes''"
    and k: "length kind \<le> length s1" "lower (take (length kind) s1) = kind"
       "s2 = drop (length kind) s1"
    by blast
  from rmatch_Lit[OF m3] have s2: "s2 = CHR ''-'' # s3"
    using take_one_lower[of s2 "CHR ''-''"] by (auto simp: lower_lit code_def)
  from rmatch_Group[OF m4] obtain g4' where
    "(s4, g4') \<in> set (rmatch (Rep NotRParen 1 None True) s3 g3)" by blast
  from rmatch_Rep[OF this] obtain i where
    i: "1 \<le> i" "i \<le> length (takeWhile (\<lambda>c. c \<noteq> CHR '')'') s3)" "s4 = drop i s3"
    unfolding in_class_NotRParen by blast
  from rmatch_Lit[OF m5] have s4: "s4 = CHR '')'' # s5"
    using take_one_lower[of s4 "CHR '')''"] by (auto simp: lower_lit code_def)
  let ?p = "takeWhile (\<lambda>c. c \<noteq> CHR '')'') s3"
  have len: "length ?p < length s3"
  proof (rule ccontr)
    assume "\<not> length ?p < length s3"
    then have "?p = s3" by (metis length_takeWhile_le le_neq_implies_less takeWhile_eq_take take_all_iff order_refl)
    then have "\<forall>c\<in>set s3. c \<noteq> CHR '')''" by (metis set_takeWhileD)
    moreover have "CHR '')'' \<in> set s3" using i(3) s4 by (metis in_set_dropD list.set_intros(1))
    ultimately show False by blast
  qed
  have pne: "?p \<noteq> []" using i by auto
  define k0 where "k0 = take (length kind) s1"
  have lk: "length k0 = length kind" using k(1) by (simp add: k0_def)
  have s1: "s1 = k0 @ CHR ''-'' # s3"
    using k(3) s2 unfolding k0_def by (metis append_take_drop_id)
  have full: "s = CHR ''('' # k0 @ CHR ''-'' # s3" using s s1 by simp
  have tk: "take (length kind + 2) s = CHR ''('' # k0 @ ''-''"
    unfolding full using lk by simp
  have dr: "drop (length kind + 2) s = s3"
    unfolding full using lk by simp
  have "lower (take (length kind + 2) s) = ''('' @ kind @ ''-''"
    unfolding tk using k(2) by (simp add: lower_def lower_char_def code_def k0_def)
  then show ?thesis
    unfolding group_at_def using kind pne len dr by (auto simp: Let_def)
qed

lemma group_at_not_Nil: "group_at s \<Longrightarrow> s \<noteq> []"
proof
  assume "group_at s" and "s = []"
  then show False by (simp add: group_at_def lower_def)
qed

lemma has_kind_group_suffix: "group_at s \<Longrightarrow> has_kind_group (w @ s)"
proof (induction w)
  case Nil
  then show ?case using group_at_not_Nil[of s] by (cases s) auto
next
  case (Cons c w)
  then show ?case by simp
qed

lemma seq_suffix:
  assumes "x \<in> set (rmatch (Seq a t) s g)"
  shows "\<exists>w s' g'. s = w @ s' \<and> x \<in> set (rmatch t s' g')"
proof -
  from assms obtain s1 g1 where
    m1: "(s1, g1) \<in> set (rmatch a s g)" and m2: "x \<in> set (rmatch t s1 g1)"
    unfolding rmatch_Seq by blast
  from rmatch_suffix[OF m1] obtain w where "s = w @ s1" by blast
  with m2 show ?thesis by blast
qed

lemma seq4_suffix:
  assumes "x \<in> set (rmatch (Seq a (Seq b (Seq c (Seq d t)))) s g)"
  shows "\<exists>w s' g'. s = w @ s' \<and> x \<in> set (rmatch t s' g')"
proof -
  from seq_suffix[OF assms] obtain w1 s1 g1 where
    1: "s = w1 @ s1" "x \<in> set (rmatch (Seq b (Seq c (Seq d t))) s1 g1)" by blast
  from seq_suffix[OF 1(2)] obtain w2 s2 g2 where
    2: "s1 = w2 @ s2" "x \<in> set (rmatch (Seq c (Seq d t)) s2 g2)" by blast
  from seq_suffix[OF 2(2)] obtain w3 s3 g3 where
    3: "s2 = w3 @ s3" "x \<in> set (rmatch (Seq d t) s3 g3)" by blast
  from seq_suffix[OF 3(2)] obtain w4 s4 g4 where
    4: "s3 = w4 @ s4" "x \<in> set (rmatch t s4 g4)" by blast
  have "s = (w1 @ w2 @ w3 @ w4) @ s4" using 1(1) 2(1) 3(1) 4(1) by simp
  with 4(2) show ?thesis by blast
qed

lemma name_re_group:
  assumes "x \<in> set (rmatch NAME_RE name g)"
  shows "has_kind_group name"
proof -
  from seq4_suffix[OF assms[unfolded NAME_RE_def]] obtain w s' g' where
    n: "name = w @ s'" and m: "x \<in> set (rmatch
      (Seq (Lit ''('')
      (Seq (Group G_kind (Alt (Lit ''microglia'') (Lit ''ribeyes'')))
      (Seq (Lit ''-'')
      (Seq (Group G_pos (Rep NotRParen 1 None True))
      (Seq (Lit '')'')
      (Seq (Lit ''_'')
      (Seq (Opt (Group G_tag (Alt (Lit ''Detailed'') (Lit ''Statistics''))))
      (Seq (Opt (Lit ''.csv'')) EndOfText)))))))) s' g')"
    by blast
  have "group_at s'" by (rule group_tail[OF m])
  then show ?thesis unfolding n by (rule has_kind_group_suffix)
qed

section \<open>Parsing names\<close>

text \<open>
  C4.  The name \<^verbatim>\<open>p3-xyz_000123(microglia-opl+ipl)_Detailed.csv\<close> matches the grammar:
  its subject is \<^verbatim>\<open>p3\<close>, its view \<^verbatim>\<open>000123\<close>, its position the normalised
  \<^verbatim>\<open>ipl+opl\<close> and its kind \<^verbatim>\<open>microglia\<close>.
\<close>

theorem parse_round_trip:
  "parse_from_name ''p3-xyz_000123(microglia-opl+ipl)_Detailed.csv'' =
     Inr (Some (''p3'', ''000123'', ''ipl+opl'', ''microglia''))"
  by code_simp

text \<open>
  C5.  The pattern makes the word \<^verbatim>\<open>Detailed\<close> or \<^verbatim>\<open>Statistics\<close> optional, but not the
  underscore before it: a name that stops after the parenthesised group, or goes
  on with \<^verbatim>\<open>.csv\<close> only, does not match, and the same name with the bare underscore
  does.
\<close>

theorem tag_optional_underscore_required:
  "parse_from_name ''p3-xyz(microglia-opl)'' = Inr None \<and>
   parse_from_name ''p3-xyz(microglia-opl).csv'' = Inr None \<and>
   parse_from_name ''p3-xyz(microglia-opl)_'' = Inr (Some (''p3'', ''/'', ''opl'', ''microglia'')) \<and>
   parse_from_name ''p3-xyz(microglia-opl)_.csv'' = Inr (Some (''p3'', ''/'', ''opl'', ''microglia''))"
  by code_simp

text \<open>
  C7.  A name that carries no parenthesised group \<^verbatim>\<open>(kind-position)\<close>, with the kind
  one of the two marker names in any case and a non-empty position free of
  \<^verbatim>\<open>)\<close>, does not match the grammar: \<^verbatim>\<open>parse_from_name\<close> returns None.
\<close>

theorem parse_rejects_without_group:
  assumes "\<not> has_kind_group name"
  shows "parse_from_name name = Inr None"
proof -
  have "rmatch NAME_RE name (\<lambda>_. None) = []"
  proof (rule ccontr)
    assume "rmatch NAME_RE name (\<lambda>_. None) \<noteq> []"
    then obtain x where "x \<in> set (rmatch NAME_RE name (\<lambda>_. None))"
      by (cases "rmatch NAME_RE name (\<lambda>_. None)") auto
    from name_re_group[OF this] assms show False by simp
  qed
  then show ?thesis by (simp add: parse_from_name_def re_match_def)
qed

theorem parse_rejects_without_group_witness:
  "\<not> has_kind_group ''p3-xyz_Detailed.csv'' \<and>
   parse_from_name ''p3-xyz_Detailed.csv'' = Inr None"
proof -
  have h: "\<not> has_kind_group ''p3-xyz_Detailed.csv''" by code_simp
  show ?thesis
    by (rule conjI[OF h parse_rejects_without_group[OF h]])
qed

section \<open>Natural ordering: properties\<close>

text \<open>
  C9.  The three names of the example are sorted as the specification says.  The
  key itself fails on a name with a run of superscript digits between two
  decimal digits or alone: \<^verbatim>\<open>str.isdigit\<close> accepts the run, \<^verbatim>\<open>\d\<close> did not split it
  and \<^verbatim>\<open>int\<close> rejects it.  A list that contains such a name is not sorted at all, and
  neither is the listing of a directory with such a CSV file.
\<close>

theorem natural_order_superscript:
  "sort_by_key natural_key [''img2'', ''img10'', ''img1''] = Inr [''img1'', ''img2'', ''img10''] \<and>
   natural_key [CHR 0xB2] = Inl ValueError \<and>
   sort_by_key natural_key [''img2'', ''img10'', [CHR 0xB2], ''img1''] = Inl ValueError \<and>
   list_csv_in_dir [''img1.csv'', [CHR ''a'', CHR ''1'', CHR 0xB2, CHR ''2'',
                                    CHR ''.'', CHR ''c'', CHR ''s'', CHR ''v'']] = Inl ValueError"
  by code_simp


section \<open>Aggregation: properties\<close>

lemma bind_err_Inr: "bind_err x Inr = x"
  by (cases x) (simp_all add: bind_err_def)

lemma bind_err_left: "bind_err (Inr x) f = f x" "bind_err (Inl e) f = Inl e"
  by (simp_all add: bind_err_def)

lemma fold_err_one: "fold_err f [a] s = f a s"
  by (cases "f a s") (simp_all add: bind_err_def)

lemma fold_err_two: "fold_err f [a, b] s = bind_err (f a s) (f b)"
  by (cases "f a s") (simp_all add: bind_err_def bind_err_Inr split: sum.splits)

lemma fold_err_invariant:
  assumes step: "\<And>x s s'. P s \<Longrightarrow> f x s = Inr s' \<Longrightarrow> P s'"
  shows "P s \<Longrightarrow> fold_err f xs s = Inr s' \<Longrightarrow> P s'"
proof (induction xs arbitrary: s)
  case Nil
  then show ?case by simp
next
  case (Cons x xs)
  then obtain s1 where 1: "f x s = Inr s1" and 2: "fold_err f xs s1 = Inr s'"
    by (auto simp: bind_err_def split: sum.splits)
  from step[OF Cons.prems(1) 1] have "P s1" .
  from Cons.IH[OF this 2] show ?case .
qed

subsection \<open>The identity fields of the records\<close>

lemma update_row_ident:
  assumes "\<And>r. mouse_ID (f r) = mouse_ID r \<and> view_id (f r) = view_id r \<and> position (f r) = position r"
  shows "map ident (update_row k f s) = map ident s"
  using assms by (induction s) (auto simp: ident_def)

lemma store_ident:
  "map ident (store k kind val s) =
     map ident s @ (if k \<in> set (map fst s) then [] else [(k, k)])"
proof -
  have n: "ident (k, new_row k) = (k, k)"
    by (cases k) (simp add: ident_def new_row_def)
  show ?thesis
    unfolding store_def Let_def
    by (simp add: update_row_ident n del: set_map)
qed

lemma fst_ident: "map fst (map ident s) = map fst s"
  by (induction s) (simp_all add: ident_def)

lemma coherent_via_ident:
  "coherent s \<longleftrightarrow> distinct (map fst s) \<and> (\<forall>p\<in>set (map ident s). snd p = fst p)"
  by (induction s) (auto simp: coherent_def ident_def)

lemma store_keys:
  "map fst (store k kind val s) = map fst s @ (if k \<in> set (map fst s) then [] else [k])"
proof -
  have "map fst (store k kind val s) = map fst (map ident (store k kind val s))"
    by (simp only: fst_ident)
  also have "\<dots> = map fst (map ident s) @ (if k \<in> set (map fst s) then [] else [k])"
    by (simp only: store_ident) simp
  finally show ?thesis by (simp only: fst_ident)
qed

lemma store_coherent: "coherent s \<Longrightarrow> coherent (store k kind val s)"
  unfolding coherent_via_ident store_keys store_ident by auto

lemma csv_step_coherent:
  "coherent s \<Longrightarrow> csv_step read d fixed n s = Inr s' \<Longrightarrow> coherent s'"
  by (auto simp: csv_step_def bind_err_def store_coherent split: sum.splits option.splits)

lemma dir_step_coherent:
  "coherent s \<Longrightarrow> dir_step read dl s = Inr s' \<Longrightarrow> coherent s'"
proof -
  assume c: "coherent s" and r: "dir_step read dl s = Inr s'"
  obtain d listing where dl: "dl = (d, listing)" by (cases dl)
  from r obtain fp csvs where
    "s' = s \<or> fold_err (csv_step read d fp) csvs s = Inr s'"
    unfolding dir_step_def dl
    by (auto simp: bind_err_def split: sum.splits if_splits)
  then show ?thesis
    using c fold_err_invariant[of coherent "csv_step read d fp" s csvs s'] csv_step_coherent
    by blast
qed

lemma coherent_Nil: "coherent []"
  by (simp add: coherent_def)

lemma build_summary_coherent:
  "build_summary sep read input_dir = Inr s \<Longrightarrow> coherent s"
proof -
  assume "build_summary sep read input_dir = Inr s"
  then obtain dirs where "fold_err (dir_step read) dirs [] = Inr s"
    by (auto simp: build_summary_def bind_err_def split: sum.splits)
  then show ?thesis
    using fold_err_invariant[of coherent "dir_step read" "[]" dirs s] dir_step_coherent coherent_Nil
    by blast
qed

subsection \<open>The run on the folder of the examples\<close>

lemma parse_ribeyes_file:
  "parse_from_name ''p1-a(ribeyes-opl)_Statistics.csv'' =
     Inr (Some (''p1'', ''/'', ''opl'', ''ribeyes''))"
  by code_simp

lemma parse_microglia_file:
  "parse_from_name ''p1-b(microglia-opl)_Detailed.csv'' =
     Inr (Some (''p1'', ''/'', ''opl'', ''microglia''))"
  by code_simp

lemma parse_batch: "parse_from_name ''batch'' = Inr None"
  by code_simp

lemma list_batch:
  "list_all_dirs sep [(''batch'', Folder [(''p1-b(microglia-opl)_Detailed.csv'', File),
                                          (''p1-a(ribeyes-opl)_Statistics.csv'', File)])] =
     Inr [([''batch''], [''p1-b(microglia-opl)_Detailed.csv'', ''p1-a(ribeyes-opl)_Statistics.csv''])]"
  by code_simp

lemma csv_batch:
  "list_csv_in_dir [''p1-b(microglia-opl)_Detailed.csv'', ''p1-a(ribeyes-opl)_Statistics.csv''] =
     Inr [''p1-a(ribeyes-opl)_Statistics.csv'', ''p1-b(microglia-opl)_Detailed.csv'']"
  by code_simp

lemma resolve_ribeyes_file:
  "resolve None ''p1-a(ribeyes-opl)_Statistics.csv'' =
     Inr (Some ((''p1'', ''/'', ''opl''), ''ribeyes''))"
  by (simp add: resolve_def parse_ribeyes_file bind_err_def or_else_def)

lemma resolve_microglia_file:
  "resolve None ''p1-b(microglia-opl)_Detailed.csv'' =
     Inr (Some ((''p1'', ''/'', ''opl''), ''microglia''))"
  by (simp add: resolve_def parse_microglia_file bind_err_def or_else_def)

lemma store_new:
  "store (m, v, p) kind val [] =
     [((m, v, p), \<lparr>mouse_ID = m, view_id = v, position = p,
        Ribeyes = (if kind = ''ribeyes'' then val else None),
        microglia = (if kind = ''ribeyes'' then None else if kind = ''microglia'' then val else None),
        engulfment_index = None\<rparr>)]"
  by (simp add: store_def new_row_def)

lemma csv_step_ribeyes_file:
  "csv_step read_example [''batch''] None ''p1-a(ribeyes-opl)_Statistics.csv'' [] =
     Inr [((''p1'', ''/'', ''opl''),
           \<lparr>mouse_ID = ''p1'', view_id = ''/'', position = ''opl'',
            Ribeyes = Some (5 / 2), microglia = None, engulfment_index = None\<rparr>)]"
  by (simp add: csv_step_def resolve_ribeyes_file bind_err_left store_new read_example_def)

lemma csv_step_microglia_file:
  "csv_step read_example [''batch''] None ''p1-b(microglia-opl)_Detailed.csv''
     [((''p1'', ''/'', ''opl''),
           \<lparr>mouse_ID = ''p1'', view_id = ''/'', position = ''opl'',
            Ribeyes = Some (5 / 2), microglia = None, engulfment_index = None\<rparr>)] =
     Inr [((''p1'', ''/'', ''opl''),
           \<lparr>mouse_ID = ''p1'', view_id = ''/'', position = ''opl'',
            Ribeyes = Some (5 / 2), microglia = Some (5 / 4), engulfment_index = None\<rparr>)]"
  by (simp add: csv_step_def resolve_microglia_file bind_err_left store_def read_example_def)

lemma example_summary:
  "build_summary ''/'' read_example
     [(''batch'', Folder [(''p1-b(microglia-opl)_Detailed.csv'', File),
                          (''p1-a(ribeyes-opl)_Statistics.csv'', File)])] =
   Inr [((''p1'', ''/'', ''opl''),
         \<lparr>mouse_ID = ''p1'', view_id = ''/'', position = ''opl'',
          Ribeyes = Some (5 / 2), microglia = Some (5 / 4), engulfment_index = None\<rparr>)]"
  by (simp add: build_summary_def list_batch dir_step_def parse_batch csv_batch
        fold_err_one fold_err_two csv_step_ribeyes_file csv_step_microglia_file
        bind_err_left del: fold_err.simps)

subsection \<open>The records and their keys\<close>

text \<open>
  C10.  The empty table is coherent: its keys are distinct and every key maps to
  a record whose subject, view and position are the components of the key.
  Writing a marker value leaves the identity fields of every record as they
  were and adds, for a new key, a record that carries the key; so the write, the
  step for one file and the whole aggregation keep the table coherent, and the
  table that \<^verbatim>\<open>build_summary\<close> returns is coherent.
\<close>

theorem key_record_coherence:
  "coherent ([] :: 'v summary) \<and>
   map ident (store k kind val s) = map ident s @ (if k \<in> set (map fst s) then [] else [(k, k)]) \<and>
   (coherent s \<longrightarrow> coherent (store k kind val s)) \<and>
   (coherent s \<longrightarrow> csv_step read d fixed n s = Inr s' \<longrightarrow> coherent s') \<and>
   (build_summary sep read input_dir = Inr t \<longrightarrow> coherent t)"
  using coherent_Nil store_ident[of k kind val s] store_coherent[of s k kind val]
    csv_step_coherent[of s read d fixed n s'] build_summary_coherent[of sep read input_dir t]
  by blast

theorem key_record_coherence_witness:
  "coherent (store (''p1'', ''/'', ''opl'') ''ribeyes'' (Some (5 / 2 :: real)) []) \<and>
   coherent [((''p1'', ''/'', ''opl''),
         \<lparr>mouse_ID = ''p1'', view_id = ''/'', position = ''opl'',
          Ribeyes = Some (5 / 2 :: real), microglia = None, engulfment_index = None\<rparr>)] \<and>
   coherent [((''p1'', ''/'', ''opl''),
         \<lparr>mouse_ID = ''p1'', view_id = ''/'', position = ''opl'',
          Ribeyes = Some (5 / 2 :: real), microglia = Some (5 / 4), engulfment_index = None\<rparr>)]"
  using key_record_coherence[of "(''p1'', ''/'', ''opl'')" "''ribeyes''" "Some (5 / 2 :: real)" "[]"
      read_example "[''batch'']" None "''p1-a(ribeyes-opl)_Statistics.csv''" _ "''/''" _ _]
    csv_step_ribeyes_file example_summary
  by blast

subsection \<open>Two markers of one key\<close>

lemma apply_events_simps:
  "apply_events [] s = s"
  "apply_events ((k, kind, val) # evs) s = apply_events evs (store k kind val s)"
  "apply_events (xs @ ys) s = apply_events ys (apply_events xs s)"
  by (simp_all add: apply_events_def)

lemma fold_err_events:
  assumes "\<And>x s. step x s = bind_err (ev x) (\<lambda>e. Inr (apply_events e s))"
  shows "fold_err step xs s = bind_err (concat_err ev xs) (\<lambda>evs. Inr (apply_events evs s))"
proof (induction xs arbitrary: s)
  case Nil
  show ?case by (simp add: bind_err_left apply_events_simps)
next
  case (Cons x xs)
  show ?case
  proof (cases "ev x")
    case (Inl e)
    then show ?thesis by (simp add: assms bind_err_left)
  next
    case (Inr ys)
    show ?thesis
    proof (cases "concat_err ev xs")
      case (Inl e)
      then show ?thesis using Inr Cons[of "apply_events ys s"]
        by (simp add: assms bind_err_left)
    next
      case zs: (Inr zs)
      then show ?thesis using Inr Cons[of "apply_events ys s"]
        by (simp add: assms bind_err_left apply_events_simps)
    qed
  qed
qed

lemma csv_step_events:
  "csv_step read d fixed n s = bind_err (csv_events read d fixed n) (\<lambda>e. Inr (apply_events e s))"
  by (cases "resolve fixed n")
     (auto simp: csv_step_def csv_events_def bind_err_left apply_events_simps split: option.splits)

lemma dir_step_events:
  "dir_step read dl s = bind_err (dir_events read dl) (\<lambda>e. Inr (apply_events e s))"
proof -
  obtain d listing where dl: "dl = (d, listing)" by (cases dl)
  show ?thesis
  proof (cases "parse_from_name (last d)")
    case (Inl e)
    then show ?thesis by (simp add: dl dir_step_def dir_events_def bind_err_left)
  next
    case fp: (Inr fp)
    show ?thesis
    proof (cases "list_csv_in_dir listing")
      case (Inl e)
      then show ?thesis using fp by (simp add: dl dir_step_def dir_events_def bind_err_left)
    next
      case (Inr csvs)
      have "fold_err (csv_step read d (map_option (\<lambda>(mouse, view, pos, _). (mouse, view, pos)) fp)) csvs s =
            bind_err (concat_err (csv_events read d (map_option (\<lambda>(mouse, view, pos, _). (mouse, view, pos)) fp)) csvs)
              (\<lambda>evs. Inr (apply_events evs s))"
        by (rule fold_err_events) (rule csv_step_events)
      then show ?thesis using fp Inr
        by (cases "csvs = []")
           (simp_all add: dl dir_step_def dir_events_def bind_err_left apply_events_simps)
    qed
  qed
qed

lemma build_summary_events:
  "build_summary sep read input_dir =
     bind_err (run_events sep read input_dir) (\<lambda>evs. Inr (apply_events evs []))"
proof (cases "list_all_dirs sep input_dir")
  case (Inl e)
  then show ?thesis by (simp add: build_summary_def run_events_def bind_err_left)
next
  case (Inr dirs)
  have "fold_err (dir_step read) dirs [] =
          bind_err (concat_err (dir_events read) dirs) (\<lambda>evs. Inr (apply_events evs []))"
    by (rule fold_err_events) (rule dir_step_events)
  with Inr show ?thesis by (simp add: build_summary_def run_events_def bind_err_left)
qed

lemma update_row_filter:
  "filter (\<lambda>kr. fst kr = k) (update_row k' f s) =
     (if k' = k then update_row k f (filter (\<lambda>kr. fst kr = k) s)
      else filter (\<lambda>kr. fst kr = k) s)"
  by (induction s) auto

lemma key_in_filter:
  "k \<in> set (map fst (filter (\<lambda>kr. fst kr = k) s)) \<longleftrightarrow> k \<in> set (map fst s)"
  by (induction s) auto

lemma store_filter:
  "filter (\<lambda>kr. fst kr = k) (store k' kind val s) =
     (if k' = k then store k kind val (filter (\<lambda>kr. fst kr = k) s)
      else filter (\<lambda>kr. fst kr = k) s)"
proof (cases "k' = k")
  case True
  show ?thesis
    unfolding store_def Let_def key_in_filter True
    by (simp add: update_row_filter del: set_map)
next
  case False
  then show ?thesis
    unfolding store_def Let_def
    by (simp add: update_row_filter del: set_map)
qed

lemma apply_events_filter:
  "filter (\<lambda>kr. fst kr = k) (apply_events evs s) =
     apply_events (filter (\<lambda>e. fst e = k) evs) (filter (\<lambda>kr. fst kr = k) s)"
proof (induction evs arbitrary: s)
  case Nil
  show ?case by (simp add: apply_events_simps)
next
  case (Cons e evs)
  obtain k' kind val where e: "e = (k', kind, val)" by (cases e)
  show ?case
    unfolding e by (simp add: apply_events_simps Cons store_filter)
qed

lemma two_events:
  "apply_events [((m, v, p), ''ribeyes'', a), ((m, v, p), ''microglia'', b)] [] =
     [((m, v, p), \<lparr>mouse_ID = m, view_id = v, position = p,
        Ribeyes = a, microglia = b, engulfment_index = None\<rparr>)]"
  "apply_events [((m, v, p), ''microglia'', b), ((m, v, p), ''ribeyes'', a)] [] =
     [((m, v, p), \<lparr>mouse_ID = m, view_id = v, position = p,
        Ribeyes = a, microglia = b, engulfment_index = None\<rparr>)]"
  by (simp_all add: apply_events_simps store_def new_row_def)

lemma run_three_files:
  "run_events sep (read :: path \<Rightarrow> ('v :: equal) option)
     [(''batch'', Folder [(''p1-b(microglia-opl)_Detailed.csv'', File),
                          (''p1-a(ribeyes-zzz)_Statistics.csv'', File),
                          (''p1-a(ribeyes-opl)_Statistics.csv'', File)])] =
   Inr [((''p1'', ''/'', ''opl''), ''ribeyes'', read [''batch'', ''p1-a(ribeyes-opl)_Statistics.csv'']),
        ((''p1'', ''/'', ''zzz''), ''ribeyes'', read [''batch'', ''p1-a(ribeyes-zzz)_Statistics.csv'']),
        ((''p1'', ''/'', ''opl''), ''microglia'', read [''batch'', ''p1-b(microglia-opl)_Detailed.csv''])]"
  by code_simp

lemma read_example_three:
  "read_example [''batch'', ''p1-a(ribeyes-opl)_Statistics.csv''] = Some 2.5"
  "read_example [''batch'', ''p1-a(ribeyes-zzz)_Statistics.csv''] = None"
  "read_example [''batch'', ''p1-b(microglia-opl)_Detailed.csv''] = Some 1.25"
  by (simp_all add: read_example_def)

text \<open>
  C2.  In a run in which exactly two files resolve to one key, one classified
  \<^verbatim>\<open>ribeyes\<close> (marker a) and one classified \<^verbatim>\<open>microglia\<close> (marker b), in either
  order and with any number of files of other keys before, between and after
  them, the table that \<^verbatim>\<open>build_summary\<close> returns holds exactly one record for the
  key: it carries the three components of the key, the value read from the first
  file as its \<^verbatim>\<open>Ribeyes\<close> value and the value read from the second as its
  \<^verbatim>\<open>microglia\<close> value.  The witness is the run on a folder with two such files for
  the key \<^verbatim>\<open>(p1, /, opl)\<close>, read as 2.5 and 1.25, and a file of another key that
  is processed between them.
\<close>

theorem merge_two_markers:
  assumes "run_events sep read input_dir = Inr evs"
    and "filter (\<lambda>e. fst e = (m, v, p)) evs = [((m, v, p), ''ribeyes'', a), ((m, v, p), ''microglia'', b)]
       \<or> filter (\<lambda>e. fst e = (m, v, p)) evs = [((m, v, p), ''microglia'', b), ((m, v, p), ''ribeyes'', a)]"
  shows "build_summary sep read input_dir = Inr (apply_events evs []) \<and>
         filter (\<lambda>kr. fst kr = (m, v, p)) (apply_events evs []) =
           [((m, v, p), \<lparr>mouse_ID = m, view_id = v, position = p,
              Ribeyes = a, microglia = b, engulfment_index = None\<rparr>)]"
proof
  show "build_summary sep read input_dir = Inr (apply_events evs [])"
    by (simp add: build_summary_events assms(1) bind_err_left)
  show "filter (\<lambda>kr. fst kr = (m, v, p)) (apply_events evs []) =
             [((m, v, p), \<lparr>mouse_ID = m, view_id = v, position = p,
                Ribeyes = a, microglia = b, engulfment_index = None\<rparr>)]"
    using assms(2) by (auto simp: apply_events_filter two_events)
qed

theorem merge_two_markers_witness:
  "build_summary ''/'' read_example
     [(''batch'', Folder [(''p1-b(microglia-opl)_Detailed.csv'', File),
                          (''p1-a(ribeyes-zzz)_Statistics.csv'', File),
                          (''p1-a(ribeyes-opl)_Statistics.csv'', File)])] =
   Inr (apply_events
     [((''p1'', ''/'', ''opl''), ''ribeyes'', Some 2.5),
      ((''p1'', ''/'', ''zzz''), ''ribeyes'', None),
      ((''p1'', ''/'', ''opl''), ''microglia'', Some 1.25)] []) \<and>
   filter (\<lambda>kr. fst kr = (''p1'', ''/'', ''opl''))
     (apply_events
       [((''p1'', ''/'', ''opl''), ''ribeyes'', Some (2.5 :: real)),
        ((''p1'', ''/'', ''zzz''), ''ribeyes'', None),
        ((''p1'', ''/'', ''opl''), ''microglia'', Some 1.25)] []) =
     [((''p1'', ''/'', ''opl''),
       \<lparr>mouse_ID = ''p1'', view_id = ''/'', position = ''opl'',
        Ribeyes = Some 2.5, microglia = Some 1.25, engulfment_index = None\<rparr>)]"
proof -
  note r = run_three_files[of "''/''" read_example, unfolded read_example_three]
  have f: "filter (\<lambda>e. fst e = (''p1'', ''/'', ''opl''))
       [((''p1'', ''/'', ''opl''), ''ribeyes'', Some (2.5 :: real)),
        ((''p1'', ''/'', ''zzz''), ''ribeyes'', None),
        ((''p1'', ''/'', ''opl''), ''microglia'', Some 1.25)] =
     [((''p1'', ''/'', ''opl''), ''ribeyes'', Some 2.5),
      ((''p1'', ''/'', ''opl''), ''microglia'', Some 1.25)]"
    by simp
  show ?thesis
    by (rule merge_two_markers[OF r disjI1[OF f]])
qed

subsection \<open>The kind of a file\<close>

lemma parse_sniffed:
  "parse_from_name ''microglia_only.csv'' = Inr None"
  "parse_from_name ''ribeyes_microglia.csv'' = Inr None"
  by code_simp+

lemma contains_sniffed:
  "\<not> contains ''ribeyes'' (lower ''microglia_only.csv'')"
  "contains ''microglia'' (lower ''microglia_only.csv'')"
  "contains ''ribeyes'' (lower ''ribeyes_microglia.csv'')"
  "contains ''microglia'' (lower ''ribeyes_microglia.csv'')"
  by code_simp+

text \<open>
  C6, amended.  For a file whose name does not match the grammar, in a folder
  whose name fixed the key, the kind is sniffed from the lower-cased name and
  \<^verbatim>\<open>ribeyes\<close> (marker a) is checked first: a name that contains it is classified
  \<^verbatim>\<open>ribeyes\<close> even if it contains \<^verbatim>\<open>microglia\<close> too, otherwise a name that contains
  \<^verbatim>\<open>microglia\<close> (marker b) is classified \<^verbatim>\<open>microglia\<close>, and a name with
  neither is skipped.  In a folder whose name fixed no key such a file is skipped
  without sniffing.
\<close>

theorem sniff_ribeyes_first:
  assumes "parse_from_name csv_name = Inr None"
  shows "resolve (Some k) csv_name =
           Inr (if contains ''ribeyes'' (lower csv_name) then Some (k, ''ribeyes'')
                else if contains ''microglia'' (lower csv_name) then Some (k, ''microglia'')
                else None) \<and>
         resolve None csv_name = Inr None"
  using assms by (simp add: resolve_def bind_err_def sniff_def Let_def)

theorem sniff_ribeyes_first_witness:
  "resolve (Some (''p1'', ''/'', ''opl'')) ''microglia_only.csv'' =
     Inr (Some ((''p1'', ''/'', ''opl''), ''microglia''))"
  using sniff_ribeyes_first[OF parse_sniffed(1), of "(''p1'', ''/'', ''opl'')"]
  by (simp only: contains_sniffed if_True if_False)

text \<open>
  C6 as stated fails: a name that holds both words and does not match the
  grammar is classified \<^verbatim>\<open>ribeyes\<close>, not \<^verbatim>\<open>microglia\<close>.
\<close>

theorem sniff_both_tokens:
  "contains ''microglia'' (lower ''ribeyes_microglia.csv'') \<and>
   parse_from_name ''ribeyes_microglia.csv'' = Inr None \<and>
   resolve (Some (''p1'', ''/'', ''opl'')) ''ribeyes_microglia.csv'' =
     Inr (Some ((''p1'', ''/'', ''opl''), ''ribeyes''))"
  by (simp add: resolve_def parse_sniffed bind_err_left sniff_def contains_sniffed)

subsection \<open>The folder name before the file name\<close>

lemma parse_c1:
  "parse_from_name ''p5-foo(ribeyes-gcl)'' = Inr None"
  "parse_from_name ''unrelated_0007(microglia-gcl)_Statistics.csv'' = Inr None"
  "parse_from_name ''p5-foo(ribeyes-gcl)_'' = Inr (Some (''p5'', ''/'', ''gcl'', ''ribeyes''))"
  by code_simp+

lemma csv_c1:
  "list_csv_in_dir [''unrelated_0007(microglia-gcl)_Statistics.csv''] =
     Inr [''unrelated_0007(microglia-gcl)_Statistics.csv'']"
  by code_simp

lemma dirs_c1:
  "list_all_dirs sep [(''p5-foo(ribeyes-gcl)'',
       Folder [(''unrelated_0007(microglia-gcl)_Statistics.csv'', File)])] =
     Inr [([''p5-foo(ribeyes-gcl)''], [''unrelated_0007(microglia-gcl)_Statistics.csv''])]"
  "list_all_dirs sep [(''p5-foo(ribeyes-gcl)_'',
       Folder [(''unrelated_0007(microglia-gcl)_Statistics.csv'', File)])] =
     Inr [([''p5-foo(ribeyes-gcl)_''], [''unrelated_0007(microglia-gcl)_Statistics.csv''])]"
  by code_simp+

lemma contains_c1:
  "\<not> contains ''ribeyes'' (lower ''unrelated_0007(microglia-gcl)_Statistics.csv'')"
  "contains ''microglia'' (lower ''unrelated_0007(microglia-gcl)_Statistics.csv'')"
  by code_simp+

text \<open>
  C1.  The folder name \<^verbatim>\<open>p5-foo(ribeyes-gcl)\<close> stops after the parenthesised group,
  so it does not match the grammar (the underscore of the pattern is
  mandatory); the name of the file does not start with a subject, so it does
  not match either; the file is skipped and the table stays empty, whatever the
  reader and the path separator.  With the bare underscore after the group the
  folder name matches and the table holds the record of the key
  \<^verbatim>\<open>(p5, /, gcl)\<close>, the kind sniffed from the file name.
\<close>

theorem folder_precedence_needs_underscore:
  "build_summary sep read
     [(''p5-foo(ribeyes-gcl)'',
       Folder [(''unrelated_0007(microglia-gcl)_Statistics.csv'', File)])] = Inr [] \<and>
   build_summary sep read
     [(''p5-foo(ribeyes-gcl)_'',
       Folder [(''unrelated_0007(microglia-gcl)_Statistics.csv'', File)])] =
     Inr [((''p5'', ''/'', ''gcl''),
           \<lparr>mouse_ID = ''p5'', view_id = ''/'', position = ''gcl'', Ribeyes = None,
            microglia = read [''p5-foo(ribeyes-gcl)_'',
                              ''unrelated_0007(microglia-gcl)_Statistics.csv''],
            engulfment_index = None\<rparr>)]"
  by (simp add: build_summary_def dirs_c1 dir_step_def parse_c1 csv_c1 fold_err_one
      csv_step_def resolve_def sniff_def contains_c1 bind_err_left store_new
      del: fold_err.simps)

end
